theory Spec2Isabelle
  imports Main "HOL-Library.Sublist"
begin

section \<open>Python string operations used by \<open>main.py\<close>\<close>

text \<open>
  A Python \<open>str\<close> is modelled as a \<open>string\<close>; one \<open>char\<close> stands for one code point
  below 256. On these code points \<open>str.isspace\<close>, \<open>str.lower\<close>, the regular expression
  class \<open>\S\<close> and the whitespace of \<open>str.split()\<close> and \<open>str.strip()\<close> are the tables below.
\<close>

definition isspace :: "char \<Rightarrow> bool" where
  "isspace c = (let n = (of_char c :: nat) in
     (9 \<le> n \<and> n \<le> 13) \<or> (28 \<le> n \<and> n \<le> 32) \<or> n = 133 \<or> n = 160)"

definition lower_char :: "char \<Rightarrow> char" where
  "lower_char c = (let n = (of_char c :: nat) in
     if (65 \<le> n \<and> n \<le> 90) \<or> (192 \<le> n \<and> n \<le> 222 \<and> n \<noteq> 215)
     then char_of (n + 32) else c)"

text \<open>\<open>s.lower()\<close>\<close>

definition str_lower :: "string \<Rightarrow> string" where
  "str_lower s = map lower_char s"

text \<open>\<open>sub in s\<close>: the substring test, trying every start position from the left.\<close>

fun str_contains :: "string \<Rightarrow> string \<Rightarrow> bool" where
  "str_contains sub [] = (sub = [])"
| "str_contains sub (c # cs) = (prefix sub (c # cs) \<or> str_contains sub cs)"

text \<open>
  \<open>s.strip(chars)\<close>: first the leading characters that occur in \<open>chars\<close> are skipped, then
  the trailing ones.
\<close>

definition str_strip :: "string \<Rightarrow> string \<Rightarrow> string" where
  "str_strip chars s =
     rev (dropWhile (\<lambda>c. c \<in> set chars) (rev (dropWhile (\<lambda>c. c \<in> set chars) s)))"

text \<open>\<open>s.strip()\<close>: the same with whitespace in place of \<open>chars\<close>.\<close>

definition str_strip_ws :: "string \<Rightarrow> string" where
  "str_strip_ws s = rev (dropWhile isspace (rev (dropWhile isspace s)))"

text \<open>
  \<open>s.split()\<close>: the maximal runs of characters that are not whitespace, in order. The
  loop keeps the token read so far in \<open>cur\<close> and closes it at a whitespace character or at
  the end of the string; an empty token is never emitted.
\<close>

fun split_loop :: "string \<Rightarrow> string \<Rightarrow> string list" where
  "split_loop [] cur = (if cur = [] then [] else [cur])"
| "split_loop (c # cs) cur =
     (if isspace c then (if cur = [] then split_loop cs [] else cur # split_loop cs [])
      else split_loop cs (cur @ [c]))"

definition str_split :: "string \<Rightarrow> string list" where
  "str_split s = split_loop s []"

text \<open>\<open>sep.join(parts)\<close>\<close>

fun str_join :: "string \<Rightarrow> string list \<Rightarrow> string" where
  "str_join sep [] = []"
| "str_join sep [p] = p"
| "str_join sep (p # q # ps) = p @ sep @ str_join sep (q # ps)"

section \<open>The link filter\<close>

text \<open>
  \<^verbatim>\<open>
  def filter_links(links):
      filtered = []
      for link in links:
          if any(social in link.lower() for social in ["facebook.com", "instagram.com",
                 "twitter.com", "linkedin.com", "youtube.com"]):
              continue
          filtered.append(link.strip(".,)"))
      return filtered
  \<close>
\<close>

definition social_domains :: "string list" where
  "social_domains =
     [''facebook.com'', ''instagram.com'', ''twitter.com'', ''linkedin.com'', ''youtube.com'']"

text \<open>The condition of the \<open>if\<close>: \<open>any(social in link.lower() for social in [...])\<close>.\<close>

definition any_social :: "string \<Rightarrow> bool" where
  "any_social link = list_ex (\<lambda>social. str_contains social (str_lower link)) social_domains"

text \<open>The \<open>for\<close> loop, with the list \<open>filtered\<close> built so far as its state.\<close>

fun filter_links_loop :: "string list \<Rightarrow> string list \<Rightarrow> string list" where
  "filter_links_loop [] filtered = filtered"
| "filter_links_loop (link # links) filtered =
     (if any_social link then filter_links_loop links filtered
      else filter_links_loop links (filtered @ [str_strip ''.,)'' link]))"

definition filter_links :: "string list \<Rightarrow> string list" where
  "filter_links links = filter_links_loop links []"

text \<open>
  The specification's wording of the cleanup rule, for comparison with \<open>str_strip\<close>:
  the characters \<open>.\<close>, \<open>,\<close> and \<open>)\<close> are removed from the end of the string and nothing
  else is changed.
\<close>

definition spec_strip_trailing :: "string \<Rightarrow> string" where
  "spec_strip_trailing s = rev (dropWhile (\<lambda>c. c \<in> set ''.,)'') (rev s))"

section \<open>Link extraction\<close>

text \<open>
  \<open>re.findall(r'https?://\S+', all_text)\<close>. \<open>match_url s\<close> is the length of the match of the
  pattern at the start of \<open>s\<close>, if there is one: \<open>http\<close>, an optional \<open>s\<close>, \<open>://\<close> and then
  the longest run of one or more characters that are not whitespace. \<open>re_findall\<close> scans from
  the left, resumes after each match and otherwise moves on by one character.
\<close>

definition match_url :: "string \<Rightarrow> nat option" where
  "match_url s =
     (if prefix ''http'' s then
        (let i = (if prefix ''s'' (drop 4 s) then 5 else 4) in
         if prefix ''://'' (drop i s) then
           (let n = length (takeWhile (\<lambda>c. \<not> isspace c) (drop (i + 3) s)) in
            if 0 < n then Some (i + 3 + n) else None)
         else None)
      else None)"

lemma match_url_pos: "match_url s = Some n \<Longrightarrow> 0 < n"
  by (auto simp: match_url_def Let_def split: if_splits)

function re_findall :: "string \<Rightarrow> string list" where
  "re_findall [] = []"
| "re_findall (c # cs) =
     (case match_url (c # cs) of
        Some n \<Rightarrow> take n (c # cs) # re_findall (drop n (c # cs))
      | None \<Rightarrow> re_findall cs)"
  by pat_completeness auto
termination
  by (relation "measure length") (auto dest: match_url_pos)

section \<open>Documents, external collaborators and what the user sees\<close>

text \<open>
  A \<open>Document\<close> of the library: its text and its metadata dictionary.
\<close>

record document =
  page_content :: string
  metadata :: "(string \<times> string) list"

text \<open>An exception that an \<open>except Exception\<close> clause catches, with its message.\<close>

datatype exn = Exception string

text \<open>
  The external collaborators, as the program calls them: \<open>YoutubeLoader.from_youtube_url(url,
  add_video_info=True).load()\<close>, \<open>subprocess.run(["yt-dlp", "--get-title",
  "--get-description", url], capture_output=True, text=True).stdout\<close>,
  \<open>UnstructuredURLLoader(urls=[url], ...).load()\<close>, \<open>validators.url\<close> (read for its truth value)
  and the map-reduce chain built from the two prompts, \<open>chain.invoke({"input_documents":
  docs})["output_text"]\<close>. Each either returns or raises.
\<close>

record env =
  youtube_loader :: "string \<Rightarrow> exn + document list"
  yt_dlp :: "string \<Rightarrow> exn + string"
  url_loader :: "string \<Rightarrow> exn + document list"
  validators_url :: "string \<Rightarrow> bool"
  chain_invoke :: "document list \<Rightarrow> exn + string"

text \<open>The messages of the \<open>st.error\<close> calls.\<close>

datatype message =
    Please_enter_url
  | Invalid_url_format
  | Failed_youtube exn
  | Failed_website exn
  | No_content_found
  | Error exn

text \<open>
  What a run does that can be observed: the calls to \<open>load_docs\<close> and to the collaborators,
  and the widgets shown. \<open>Tab_stats word_count link_count\<close> is the statistics panel.
\<close>

datatype event =
    Call_load_docs string
  | Call_youtube_loader string
  | Call_yt_dlp string
  | Call_url_loader string
  | Call_chain "document list"
  | St_error message
  | Tab_summary string
  | Download_button string
  | Links_header
  | Link_item string
  | Links_footer
  | St_info_no_links
  | Tab_stats nat nat

section \<open>The document loader\<close>

text \<open>
  \<^verbatim>\<open>
  def load_docs(url):
      docs = None
      if "youtube.com" in url or "youtu.be" in url:
          try:
              loader = YoutubeLoader.from_youtube_url(url, add_video_info=True)
              docs = loader.load()
          except Exception:
              try:
                  result = subprocess.run(["yt-dlp", "--get-title", "--get-description", url],
                                          capture_output=True, text=True)
                  yt_text = result.stdout.strip()
                  if yt_text:
                      docs = [Document(page_content=yt_text, metadata={"source": url})]
              except Exception as yt_err:
                  st.error(f"Failed to extract YouTube content: {yt_err}")
      else:
          try:
              loader = UnstructuredURLLoader(urls=[url], ssl_verify=False, headers={...})
              docs = loader.load()
          except Exception as web_err:
              st.error(f"Failed to load website content: {web_err}")
      return docs
  \<close>
  The result is \<open>docs\<close> (\<open>None\<close> or a list) together with the events of the call. The function
  is the body that \<open>st.cache_data\<close> wraps: what runs when the URL is not in the cache.
\<close>

definition load_docs :: "env \<Rightarrow> string \<Rightarrow> document list option \<times> event list" where
  "load_docs e url =
     (if str_contains ''youtube.com'' url \<or> str_contains ''youtu.be'' url then
        (case youtube_loader e url of
           Inr docs \<Rightarrow> (Some docs, [Call_youtube_loader url])
         | Inl _ \<Rightarrow>
             (case yt_dlp e url of
                Inr stdout \<Rightarrow>
                  (let yt_text = str_strip_ws stdout in
                   if yt_text \<noteq> [] then
                     (Some [\<lparr>page_content = yt_text, metadata = [(''source'', url)]\<rparr>],
                      [Call_youtube_loader url, Call_yt_dlp url])
                   else (None, [Call_youtube_loader url, Call_yt_dlp url]))
              | Inl yt_err \<Rightarrow>
                  (None, [Call_youtube_loader url, Call_yt_dlp url,
                          St_error (Failed_youtube yt_err)])))
      else
        (case url_loader e url of
           Inr docs \<Rightarrow> (Some docs, [Call_url_loader url])
         | Inl web_err \<Rightarrow> (None, [Call_url_loader url, St_error (Failed_website web_err)])))"

section \<open>The button handler\<close>

text \<open>
  The body of \<open>if docs:\<close>, lines 141 to 192 of \<open>main.py\<close>: the links are extracted and, when
  \<open>show_links\<close> is set, filtered; the chain is invoked (an exception leaves the \<open>try\<close> and is
  reported by the handler at the end of the script); then the three tabs are filled.
\<close>

definition summarize_and_show :: "env \<Rightarrow> document list \<Rightarrow> bool \<Rightarrow> event list" where
  "summarize_and_show e docs show_links =
     (let all_text = str_join '' '' (map page_content docs);
          links = re_findall all_text;
          links = (if show_links then filter_links links else links)
      in case chain_invoke e docs of
           Inl err \<Rightarrow> [Call_chain docs, St_error (Error err)]
         | Inr output_summary \<Rightarrow>
             [Call_chain docs, Tab_summary output_summary, Download_button output_summary]
             @ (if show_links \<and> links \<noteq> []
                then [Links_header] @ map Link_item links @ [Links_footer]
                else [St_info_no_links])
             @ (let word_count = length (str_split output_summary);
                    link_count = (if links \<noteq> [] then length links else 0)
                in [Tab_stats word_count link_count]))"

text \<open>
  \<^verbatim>\<open>
  if st.button("Generate Summary"):
      if not generic_url.strip():
          st.error("Please enter a YouTube or Website URL")
      elif not validators.url(generic_url):
          st.error("Invalid URL format. Please provide a valid URL.")
      else:
          try:
              docs = load_docs(generic_url)
              if docs:
                  ...
              else:
                  st.error("No content found. Try another link.")
          except Exception as e:
              st.error(f"Error: {str(e)}")
  \<close>
  \<open>if docs:\<close> is false for \<open>None\<close> and for the empty list.
\<close>

definition on_generate :: "env \<Rightarrow> string \<Rightarrow> bool \<Rightarrow> event list" where
  "on_generate e generic_url show_links =
     (if str_strip_ws generic_url = [] then [St_error Please_enter_url]
      else if \<not> validators_url e generic_url then [St_error Invalid_url_format]
      else
        (case load_docs e generic_url of
           (None, loaded) \<Rightarrow> Call_load_docs generic_url # loaded @ [St_error No_content_found]
         | (Some [], loaded) \<Rightarrow> Call_load_docs generic_url # loaded @ [St_error No_content_found]
         | (Some (d # ds), loaded) \<Rightarrow>
             Call_load_docs generic_url # loaded @ summarize_and_show e (d # ds) show_links))"

text \<open>
  The specification's wording of the word count, for comparison with
  \<open>len(output_summary.split())\<close>: the number of whitespace-delimited tokens, counted as the
  positions where a character that is not whitespace stands at the start of the text or
  right after a whitespace character. The flag says whether the previous position was such
  a boundary.
\<close>

fun token_starts :: "bool \<Rightarrow> string \<Rightarrow> nat" where
  "token_starts b [] = 0"
| "token_starts b (c # cs) =
     (if \<not> isspace c \<and> b then 1 else 0) + token_starts (isspace c) cs"

definition spec_token_count :: "string \<Rightarrow> nat" where
  "spec_token_count s = token_starts True s"




section \<open>An environment for the examples\<close>

text \<open>
  The transcript loader always raises. \<open>yt-dlp\<close> prints a title and a description for one
  URL and a lone newline for another, and is not installed for any other. The page loader
  returns one document that mentions two links. The validator accepts what begins with
  \<open>http://\<close> or \<open>https://\<close>. The chain returns a fixed summary.
\<close>

definition demo_env :: env where
  "demo_env = \<lparr>
     youtube_loader = (\<lambda>url. Inl (Exception ''no transcript'')),
     yt_dlp = (\<lambda>url.
        if url = ''https://youtu.be/abc'' then Inr (CHR 0x0A # ''Title'' @ CHR 0x0A # ''About it'' @ [CHR 0x0A])
        else if url = ''https://www.youtube.com/watch?v=1'' then Inr [CHR 0x0A]
        else Inl (Exception ''yt-dlp not found'')),
     url_loader = (\<lambda>url.
        Inr [\<lparr>page_content = ''See https://facebook.com/x, and https://a.org/y.'', metadata = []\<rparr>]),
     validators_url = (\<lambda>url. prefix ''http://'' url \<or> prefix ''https://'' url),
     chain_invoke = (\<lambda>docs. Inr ''A  short summary '')\<rparr>"

section \<open>Facts about the string operations\<close>

lemma str_contains_sublist: "str_contains sub s \<longleftrightarrow> sublist sub s"
  by (induction s) (simp_all add: sublist_Cons_right)

lemma str_contains_iff: "str_contains sub s \<longleftrightarrow> (\<exists>ps ss. s = ps @ sub @ ss)"
  by (simp add: str_contains_sublist sublist_def)

lemma sublist_rstrip: "sublist (rev (dropWhile P (rev s))) s"
proof -
  have "rev s = takeWhile P (rev s) @ dropWhile P (rev s)"
    by simp
  then have "s = rev (dropWhile P (rev s)) @ rev (takeWhile P (rev s))"
    by (metis rev_append rev_rev_ident)
  then show ?thesis
    by (metis sublist_append_rightI)
qed

lemma sublist_str_strip: "sublist (str_strip chars s) s"
proof -
  have "sublist (str_strip chars s) (dropWhile (\<lambda>c. c \<in> set chars) s)"
    unfolding str_strip_def by (rule sublist_rstrip)
  moreover have "sublist (dropWhile (\<lambda>c. c \<in> set chars) s) s"
    by (rule suffix_imp_sublist) (rule suffix_dropWhile)
  ultimately show ?thesis
    by (rule sublist_order.order.trans)
qed

lemma any_social_iff:
  "any_social link \<longleftrightarrow> (\<exists>social \<in> set social_domains. sublist social (str_lower link))"
  by (simp add: any_social_def list_ex_iff str_contains_sublist)

lemma any_social_str_strip: "any_social (str_strip chars link) \<Longrightarrow> any_social link"
proof -
  assume "any_social (str_strip chars link)"
  then obtain social where s: "social \<in> set social_domains"
    and "sublist social (str_lower (str_strip chars link))"
    by (auto simp: any_social_iff)
  moreover have "sublist (str_lower (str_strip chars link)) (str_lower link)"
    unfolding str_lower_def by (rule map_mono_sublist) (rule sublist_str_strip)
  ultimately have "sublist social (str_lower link)"
    by (blast intro: sublist_order.order.trans)
  with s show ?thesis
    by (auto simp: any_social_iff)
qed

lemma dropWhile_rstrip:
  "dropWhile P (rev (dropWhile P (rev (dropWhile P s)))) = rev (dropWhile P (rev (dropWhile P s)))"
proof -
  define t where "t = dropWhile P s"
  define u where "u = rev (dropWhile P (rev t))"
  have "dropWhile P u = u"
  proof (cases u)
    case Nil
    then show ?thesis by simp
  next
    case (Cons c cs)
    have "rev t = takeWhile P (rev t) @ dropWhile P (rev t)"
      by simp
    then have "t = u @ rev (takeWhile P (rev t))"
      unfolding u_def by (metis rev_append rev_rev_ident)
    with Cons have t: "t = c # (cs @ rev (takeWhile P (rev t)))"
      by simp
    then have "t \<noteq> []"
      by (metis list.distinct(1))
    then have "\<not> P (hd t)"
      unfolding t_def by (rule hd_dropWhile)
    with t have "\<not> P c"
      by (metis list.sel(1))
    with Cons show ?thesis
      by simp
  qed
  then show ?thesis
    by (simp add: u_def t_def)
qed

lemma str_strip_idem: "str_strip chars (str_strip chars s) = str_strip chars s"
  by (simp add: str_strip_def dropWhile_rstrip)

lemma str_strip_no_leading:
  "(case s of [] \<Rightarrow> True | c # cs \<Rightarrow> c \<notin> set ''.,)'') \<Longrightarrow> str_strip ''.,)'' s = spec_strip_trailing s"
  by (cases s) (simp_all add: str_strip_def spec_strip_trailing_def)

lemma strip_pred_empty_iff:
  "rev (dropWhile P (rev (dropWhile P s))) = [] \<longleftrightarrow> (\<forall>c \<in> set s. P c)"
proof -
  define t where "t = dropWhile P s"
  have "rev (dropWhile P (rev t)) = [] \<longleftrightarrow> dropWhile P (rev t) = []"
    by simp
  also have "\<dots> \<longleftrightarrow> (\<forall>c \<in> set (rev t). P c)"
    by (rule dropWhile_eq_Nil_conv)
  also have "\<dots> \<longleftrightarrow> t = []"
  proof (cases t)
    case Nil
    then show ?thesis by simp
  next
    case (Cons c cs)
    then have "t \<noteq> []"
      by simp
    then have "\<not> P (hd t)"
      unfolding t_def by (rule hd_dropWhile)
    with Cons show ?thesis by auto
  qed
  also have "\<dots> \<longleftrightarrow> (\<forall>c \<in> set s. P c)"
    unfolding t_def by (rule dropWhile_eq_Nil_conv)
  finally show ?thesis
    unfolding t_def .
qed

lemma str_strip_ws_empty_iff: "str_strip_ws s = [] \<longleftrightarrow> (\<forall>c \<in> set s. isspace c)"
  unfolding str_strip_ws_def by (rule strip_pred_empty_iff)

lemma str_contains_set: "str_contains sub s \<Longrightarrow> set sub \<subseteq> set s"
  by (auto simp: str_contains_iff)

lemma video_url_not_blank:
  assumes "str_contains ''youtube.com'' url \<or> str_contains ''youtu.be'' url"
  shows "str_strip_ws url \<noteq> []"
proof -
  from assms have "CHR ''y'' \<in> set url"
    by (auto dest!: str_contains_set)
  moreover have "\<not> isspace CHR ''y''"
    by (simp add: isspace_def)
  ultimately show ?thesis
    by (auto simp: str_strip_ws_empty_iff)
qed

lemma length_split_loop:
  "length (split_loop s cur) = token_starts (cur = []) s + (if cur = [] then 0 else 1)"
  by (induction s arbitrary: cur) auto

lemma length_str_split: "length (str_split s) = spec_token_count s"
  by (simp add: str_split_def spec_token_count_def length_split_loop)

lemma concat_split_loop:
  "concat (split_loop s cur) = cur @ filter (\<lambda>c. \<not> isspace c) s"
  by (induction s arbitrary: cur) auto

lemma concat_str_split: "concat (str_split s) = filter (\<lambda>c. \<not> isspace c) s"
  by (simp add: str_split_def concat_split_loop)

lemma split_loop_tokens:
  "t \<in> set (split_loop s cur) \<Longrightarrow> \<forall>c \<in> set cur. \<not> isspace c \<Longrightarrow>
     t \<noteq> [] \<and> (\<forall>c \<in> set t. \<not> isspace c)"
proof (induction s arbitrary: cur)
  case Nil
  then show ?case
    by (cases "cur = []") simp_all
next
  case (Cons c cs)
  show ?case
  proof (cases "isspace c")
    case True
    with Cons.prems(1) have "t = cur \<and> cur \<noteq> [] \<or> t \<in> set (split_loop cs [])"
      by (cases "cur = []") simp_all
    then show ?thesis
    proof
      assume "t = cur \<and> cur \<noteq> []"
      with Cons.prems(2) show ?thesis by simp
    next
      assume "t \<in> set (split_loop cs [])"
      then show ?thesis by (rule Cons.IH) simp
    qed
  next
    case False
    with Cons.prems(1) have "t \<in> set (split_loop cs (cur @ [c]))"
      by simp
    moreover have "\<forall>x \<in> set (cur @ [c]). \<not> isspace x"
      using False Cons.prems(2) by simp
    ultimately show ?thesis
      by (rule Cons.IH)
  qed
qed

lemma str_split_tokens:
  "t \<in> set (str_split s) \<Longrightarrow> t \<noteq> [] \<and> (\<forall>c \<in> set t. \<not> isspace c)"
  using split_loop_tokens [of t s "[]"] by (simp add: str_split_def)

section \<open>Facts about the link filter\<close>

lemma filter_links_loop_eq:
  "filter_links_loop links filtered =
     filtered @ map (str_strip ''.,)'') (filter (\<lambda>l. \<not> any_social l) links)"
  by (induction links arbitrary: filtered) simp_all

lemma filter_links_eq:
  "filter_links links = map (str_strip ''.,)'') (filter (\<lambda>l. \<not> any_social l) links)"
  by (simp add: filter_links_def filter_links_loop_eq)

lemma filter_links_kept_not_social:
  "out \<in> set (filter_links links) \<Longrightarrow> \<not> any_social out"
  by (auto simp: filter_links_eq dest: any_social_str_strip)

section \<open>Claims about the link filter\<close>

text \<open>
  Claim C3. For every input list, no string returned by \<open>filter_links\<close> has a lowercase
  form that contains \<open>facebook.com\<close>, \<open>instagram.com\<close>, \<open>twitter.com\<close>, \<open>linkedin.com\<close> or
  \<open>youtube.com\<close>.
\<close>

theorem filter_links_no_social:
  "out \<in> set (filter_links links) \<Longrightarrow>
     \<not> str_contains ''facebook.com'' (str_lower out) \<and>
     \<not> str_contains ''instagram.com'' (str_lower out) \<and>
     \<not> str_contains ''twitter.com'' (str_lower out) \<and>
     \<not> str_contains ''linkedin.com'' (str_lower out) \<and>
     \<not> str_contains ''youtube.com'' (str_lower out)"
proof -
  assume "out \<in> set (filter_links links)"
  then have "\<not> any_social out"
    by (rule filter_links_kept_not_social)
  then show ?thesis
    by (simp add: any_social_def social_domains_def)
qed

theorem filter_links_no_social_witness:
  "''https://good.org/y'' \<in> set (filter_links
      [''https://example.com/page.'', ''https://FaceBook.com/x'', ''https://good.org/y)'']) \<and>
   \<not> str_contains ''facebook.com'' (str_lower ''https://good.org/y'') \<and>
   \<not> str_contains ''instagram.com'' (str_lower ''https://good.org/y'') \<and>
   \<not> str_contains ''twitter.com'' (str_lower ''https://good.org/y'') \<and>
   \<not> str_contains ''linkedin.com'' (str_lower ''https://good.org/y'') \<and>
   \<not> str_contains ''youtube.com'' (str_lower ''https://good.org/y'')"
proof -
  have h: "''https://good.org/y'' \<in> set (filter_links
      [''https://example.com/page.'', ''https://FaceBook.com/x'', ''https://good.org/y)''])"
    by code_simp
  from filter_links_no_social [OF h] h show ?thesis
    by blast
qed

text \<open>
  Claim C4 as stated says that a retained entry is the input with only its trailing \<open>.\<close>,
  \<open>,\<close>, \<open>)\<close> removed. \<open>str.strip\<close> also removes them from the front: on the input
  \<open>[".env,"]\<close> the code returns \<open>["env"]\<close>, where removing trailing characters only gives
  \<open>[".env"]\<close>.
\<close>

theorem filter_links_strip_counterexample:
  "filter_links [''.env,''] = [''env''] \<and> map spec_strip_trailing [''.env,''] = [''.env''] \<and>
   filter_links [''.env,''] \<noteq> map spec_strip_trailing [''.env,'']"
  by code_simp

text \<open>
  Claim C4, amended. Each retained entry of \<open>filter_links\<close> is the corresponding input string
  with every leading and every trailing \<open>.\<close>, \<open>,\<close>, \<open>)\<close> removed and nothing else changed.
  When no input string begins with one of these characters (a match of \<open>https?://\S+\<close> begins
  with \<open>h\<close>), this is the input with only the trailing characters removed. The example of the
  specification yields exactly \<open>["https://example.com/page", "https://good.org/y"]\<close>.
\<close>

theorem filter_links_strips_both_ends:
  "filter_links links = map (str_strip ''.,)'') (filter (\<lambda>l. \<not> any_social l) links) \<and>
   ((\<forall>l \<in> set links. case l of [] \<Rightarrow> True | c # cs \<Rightarrow> c \<notin> set ''.,)'') \<longrightarrow>
      filter_links links = map spec_strip_trailing (filter (\<lambda>l. \<not> any_social l) links)) \<and>
   filter_links [''https://example.com/page.'', ''https://facebook.com/x'', ''https://good.org/y)'']
     = [''https://example.com/page'', ''https://good.org/y'']"
proof (intro conjI impI)
  show "filter_links links = map (str_strip ''.,)'') (filter (\<lambda>l. \<not> any_social l) links)"
    by (rule filter_links_eq)
next
  assume a: "\<forall>l \<in> set links. case l of [] \<Rightarrow> True | c # cs \<Rightarrow> c \<notin> set ''.,)''"
  have "map (str_strip ''.,)'') (filter (\<lambda>l. \<not> any_social l) links)
      = map spec_strip_trailing (filter (\<lambda>l. \<not> any_social l) links)"
  proof (rule map_cong [OF refl])
    fix l assume "l \<in> set (filter (\<lambda>l. \<not> any_social l) links)"
    then have "l \<in> set links" by simp
    with a have "case l of [] \<Rightarrow> True | c # cs \<Rightarrow> c \<notin> set ''.,)''" by blast
    then show "str_strip ''.,)'' l = spec_strip_trailing l"
      by (rule str_strip_no_leading)
  qed
  then show "filter_links links = map spec_strip_trailing (filter (\<lambda>l. \<not> any_social l) links)"
    by (simp add: filter_links_eq)
next
  show "filter_links [''https://example.com/page.'', ''https://facebook.com/x'', ''https://good.org/y)'']
     = [''https://example.com/page'', ''https://good.org/y'']"
    by code_simp
qed

theorem filter_links_strips_both_ends_witness:
  "list_all (\<lambda>l. case l of [] \<Rightarrow> True | c # cs \<Rightarrow> c \<notin> set ''.,)'')
     [''https://a.org/x).'', ''http://b.org,''] \<and>
   filter_links [''https://a.org/x).'', ''http://b.org,''] = [''https://a.org/x'', ''http://b.org''] \<and>
   map spec_strip_trailing (filter (\<lambda>l. \<not> any_social l) [''https://a.org/x).'', ''http://b.org,''])
     = [''https://a.org/x'', ''http://b.org'']"
proof -
  have h: "list_all (\<lambda>l. case l of [] \<Rightarrow> True | c # cs \<Rightarrow> c \<notin> set ''.,)'')
     [''https://a.org/x).'', ''http://b.org,'']"
    by simp
  then have b: "\<forall>l \<in> set [''https://a.org/x).'', ''http://b.org,''].
       case l of [] \<Rightarrow> True | c # cs \<Rightarrow> c \<notin> set ''.,)''"
    unfolding list_all_iff .
  have e: "filter_links [''https://a.org/x).'', ''http://b.org,''] = [''https://a.org/x'', ''http://b.org'']"
    by code_simp
  from filter_links_strips_both_ends [of "[''https://a.org/x).'', ''http://b.org,'']"] b e
  have "map spec_strip_trailing (filter (\<lambda>l. \<not> any_social l) [''https://a.org/x).'', ''http://b.org,''])
     = [''https://a.org/x'', ''http://b.org'']"
    by metis
  with h e show ?thesis
    by blast
qed

text \<open>
  Claim C5. The output of \<open>filter_links\<close> is the image, entry by entry, of a subsequence of
  the input (the retained entries in their input order); it has as many entries as the input
  has strings that are not denylisted; and a string that is not denylisted occurs in the
  output, stripped, at least as often as it occurs in the input: nothing is deduplicated.
\<close>

theorem filter_links_order_no_dedup:
  "(\<exists>kept. subseq kept links \<and> filter_links links = map (str_strip ''.,)'') kept) \<and>
   length (filter_links links) = length (filter (\<lambda>l. \<not> any_social l) links) \<and>
   (\<not> any_social l \<longrightarrow>
      count_list links l \<le> count_list (filter_links links) (str_strip ''.,)'' l))"
proof (intro conjI impI)
  show "\<exists>kept. subseq kept links \<and> filter_links links = map (str_strip ''.,)'') kept"
    using filter_links_eq subseq_filter_left by blast
next
  show "length (filter_links links) = length (filter (\<lambda>l. \<not> any_social l) links)"
    by (simp add: filter_links_eq)
next
  assume "\<not> any_social l"
  then show "count_list links l \<le> count_list (filter_links links) (str_strip ''.,)'' l)"
    unfolding filter_links_eq
    by (induction links) auto
qed

theorem filter_links_order_no_dedup_witness:
  "\<not> any_social ''https://a.org/x.'' \<and>
   count_list [''https://a.org/x.'', ''https://twitter.com/t'', ''https://a.org/x.''] ''https://a.org/x.'' = 2 \<and>
   filter_links [''https://a.org/x.'', ''https://twitter.com/t'', ''https://a.org/x.'']
     = [''https://a.org/x'', ''https://a.org/x''] \<and>
   2 \<le> count_list (filter_links [''https://a.org/x.'', ''https://twitter.com/t'', ''https://a.org/x.''])
          (str_strip ''.,)'' ''https://a.org/x.'')"
proof -
  have h: "\<not> any_social ''https://a.org/x.''"
    by code_simp
  have c: "count_list [''https://a.org/x.'', ''https://twitter.com/t'', ''https://a.org/x.''] ''https://a.org/x.'' = 2"
    by code_simp
  have e: "filter_links [''https://a.org/x.'', ''https://twitter.com/t'', ''https://a.org/x.'']
     = [''https://a.org/x'', ''https://a.org/x'']"
    by code_simp
  from filter_links_order_no_dedup
    [of "[''https://a.org/x.'', ''https://twitter.com/t'', ''https://a.org/x.'']" "''https://a.org/x.''"] h
  have "count_list [''https://a.org/x.'', ''https://twitter.com/t'', ''https://a.org/x.''] ''https://a.org/x.''
     \<le> count_list (filter_links [''https://a.org/x.'', ''https://twitter.com/t'', ''https://a.org/x.''])
          (str_strip ''.,)'' ''https://a.org/x.'')"
    by blast
  with h c e show ?thesis
    by metis
qed

text \<open>
  Claim C9. \<open>filter_links\<close> is idempotent: applied to its own output it returns that output
  unchanged.
\<close>

theorem filter_links_idempotent:
  "filter_links (filter_links links) = filter_links links"
proof -
  have "filter (\<lambda>l. \<not> any_social l) (filter_links links) = filter_links links"
    by (rule filter_True) (auto dest: filter_links_kept_not_social)
  then have "filter_links (filter_links links) = map (str_strip ''.,)'') (filter_links links)"
    by (simp add: filter_links_eq [of "filter_links links"])
  also have "\<dots> = filter_links links"
    by (simp add: filter_links_eq str_strip_idem)
  finally show ?thesis .
qed

theorem filter_links_idempotent_witness:
  "filter_links (filter_links [''.,https://a.org/x).'', ''https://LinkedIn.com/in/z''])
     = [''https://a.org/x'']"
proof -
  have "filter_links [''.,https://a.org/x).'', ''https://LinkedIn.com/in/z''] = [''https://a.org/x'']"
    by code_simp
  with filter_links_idempotent [of "[''.,https://a.org/x).'', ''https://LinkedIn.com/in/z'']"]
  show ?thesis
    by simp
qed

section \<open>Facts about the loader and the button handler\<close>

lemma load_docs_events:
  "ev \<in> set (snd (load_docs e url)) \<Longrightarrow>
     ev = Call_youtube_loader url \<or> ev = Call_yt_dlp url \<or> ev = Call_url_loader url \<or>
     (\<exists>err. ev = St_error (Failed_youtube err)) \<or> (\<exists>err. ev = St_error (Failed_website err))"
  by (auto simp: load_docs_def Let_def split: if_splits sum.splits)

lemma summarize_and_show_stats:
  "Tab_stats wc lc \<in> set (summarize_and_show e docs show_links) \<Longrightarrow>
     \<exists>s. chain_invoke e docs = Inr s \<and> wc = length (str_split s)"
  by (auto simp: summarize_and_show_def Let_def split: sum.splits if_splits)

lemma summarize_and_show_summary:
  "Tab_summary s \<in> set (summarize_and_show e docs show_links) \<longleftrightarrow> chain_invoke e docs = Inr s"
  by (auto simp: summarize_and_show_def Let_def split: sum.splits if_splits)

lemma on_generate_valid:
  "str_strip_ws url \<noteq> [] \<Longrightarrow> validators_url e url \<Longrightarrow>
     on_generate e url show_links =
       Call_load_docs url # snd (load_docs e url) @
         (case fst (load_docs e url) of
            None \<Rightarrow> [St_error No_content_found]
          | Some [] \<Rightarrow> [St_error No_content_found]
          | Some (d # ds) \<Rightarrow> summarize_and_show e (d # ds) show_links)"
  by (simp add: on_generate_def split: prod.splits option.splits list.splits)

lemma on_generate_invalid:
  "str_strip_ws url = [] \<or> \<not> validators_url e url \<Longrightarrow>
     on_generate e url show_links =
       (if str_strip_ws url = [] then [St_error Please_enter_url] else [St_error Invalid_url_format])"
  by (auto simp: on_generate_def)

section \<open>Claims about the loader and the button handler\<close>




text \<open>
  Claim C2. For a video URL on which the structured loader raises and the command-line
  fallback raises or prints nothing but whitespace, \<open>load_docs\<close> returns \<open>None\<close>; the run
  never invokes the chain and never shows a summary; and, the URL having passed the format
  validator, what the user sees after the loader's own events is the message
  \<open>No content found\<close>.
\<close>

theorem video_both_paths_fail:
  assumes video: "str_contains ''youtube.com'' url \<or> str_contains ''youtu.be'' url"
    and primary: "youtube_loader e url = Inl err"
    and fallback: "(\<exists>err'. yt_dlp e url = Inl err') \<or>
                   (\<exists>out. yt_dlp e url = Inr out \<and> str_strip_ws out = [])"
  shows "fst (load_docs e url) = None \<and>
     (\<forall>s. Tab_summary s \<notin> set (on_generate e url show_links)) \<and>
     (\<forall>docs. Call_chain docs \<notin> set (on_generate e url show_links)) \<and>
     (validators_url e url \<longrightarrow>
        on_generate e url show_links =
          Call_load_docs url # snd (load_docs e url) @ [St_error No_content_found])"
proof -
  from assms have none: "fst (load_docs e url) = None"
    by (auto simp: load_docs_def Let_def)
  from video have nb: "str_strip_ws url \<noteq> []"
    by (rule video_url_not_blank)
  obtain loaded where l: "load_docs e url = (None, loaded)"
    using none by (cases "load_docs e url") simp
  have ev: "\<And>ev. ev \<in> set loaded \<Longrightarrow>
     (\<forall>s. ev \<noteq> Tab_summary s) \<and> (\<forall>docs. ev \<noteq> Call_chain docs)"
    using load_docs_events [of _ e url] l by fastforce
  have og: "on_generate e url show_links =
     (if validators_url e url then Call_load_docs url # loaded @ [St_error No_content_found]
      else [St_error Invalid_url_format])"
    using nb l by (simp add: on_generate_def)
  show ?thesis
    using none og ev l by auto
qed

theorem video_both_paths_fail_witness:
  "str_contains ''youtube.com'' ''https://www.youtube.com/watch?v=1'' \<and>
   youtube_loader demo_env ''https://www.youtube.com/watch?v=1'' = Inl (Exception ''no transcript'') \<and>
   yt_dlp demo_env ''https://www.youtube.com/watch?v=1'' = Inr [CHR 0x0A] \<and>
   str_strip_ws [CHR 0x0A] = [] \<and>
   validators_url demo_env ''https://www.youtube.com/watch?v=1'' \<and>
   fst (load_docs demo_env ''https://www.youtube.com/watch?v=1'') = None \<and>
   on_generate demo_env ''https://www.youtube.com/watch?v=1'' True =
     [Call_load_docs ''https://www.youtube.com/watch?v=1'',
      Call_youtube_loader ''https://www.youtube.com/watch?v=1'',
      Call_yt_dlp ''https://www.youtube.com/watch?v=1'',
      St_error No_content_found]"
proof -
  let ?u = "''https://www.youtube.com/watch?v=1''"
  have h1: "str_contains ''youtube.com'' ?u"
    by code_simp
  have h2: "youtube_loader demo_env ?u = Inl (Exception ''no transcript'')"
    by (simp add: demo_env_def)
  have h3: "yt_dlp demo_env ?u = Inr [CHR 0x0A]"
    by (simp add: demo_env_def)
  have h4: "str_strip_ws [CHR 0x0A] = []"
    by (simp add: str_strip_ws_def isspace_def)
  have h5: "validators_url demo_env ?u"
    by (simp add: demo_env_def)
  have h6: "snd (load_docs demo_env ?u) = [Call_youtube_loader ?u, Call_yt_dlp ?u]"
    by code_simp
  from h3 h4 have fb: "(\<exists>err'. yt_dlp demo_env ?u = Inl err') \<or>
      (\<exists>out. yt_dlp demo_env ?u = Inr out \<and> str_strip_ws out = [])"
    by blast
  from video_both_paths_fail [of ?u demo_env "Exception ''no transcript''" True, OF disjI1 [OF h1] h2 fb] h5
  have "fst (load_docs demo_env ?u) = None \<and>
     on_generate demo_env ?u True = Call_load_docs ?u # snd (load_docs demo_env ?u) @ [St_error No_content_found]"
    by blast
  with h1 h2 h3 h4 h5 h6 show ?thesis
    by simp
qed

text \<open>
  Claim C6. For a video URL on which the structured loader raises and the command-line tool
  returns an output that is not empty once stripped of surrounding whitespace, \<open>load_docs\<close>
  returns exactly one document: its content is the stripped output and its metadata is
  \<open>{"source": url}\<close> with the URL as submitted.
\<close>

theorem video_fallback_document:
  assumes video: "str_contains ''youtube.com'' url \<or> str_contains ''youtu.be'' url"
    and primary: "youtube_loader e url = Inl err"
    and fallback: "yt_dlp e url = Inr out"
    and nonempty: "str_strip_ws out \<noteq> []"
  shows "load_docs e url =
     (Some [\<lparr>page_content = str_strip_ws out, metadata = [(''source'', url)]\<rparr>],
      [Call_youtube_loader url, Call_yt_dlp url])"
  using assms by (auto simp: load_docs_def Let_def)

theorem video_fallback_document_witness:
  "str_contains ''youtu.be'' ''https://youtu.be/abc'' \<and>
   youtube_loader demo_env ''https://youtu.be/abc'' = Inl (Exception ''no transcript'') \<and>
   yt_dlp demo_env ''https://youtu.be/abc'' =
     Inr (CHR 0x0A # ''Title'' @ CHR 0x0A # ''About it'' @ [CHR 0x0A]) \<and>
   str_strip_ws (CHR 0x0A # ''Title'' @ CHR 0x0A # ''About it'' @ [CHR 0x0A]) =
     ''Title'' @ CHR 0x0A # ''About it'' \<and>
   fst (load_docs demo_env ''https://youtu.be/abc'') =
     Some [\<lparr>page_content = ''Title'' @ CHR 0x0A # ''About it'',
            metadata = [(''source'', ''https://youtu.be/abc'')]\<rparr>]"
proof -
  let ?u = "''https://youtu.be/abc''"
  let ?out = "CHR 0x0A # ''Title'' @ CHR 0x0A # ''About it'' @ [CHR 0x0A]"
  have h1: "str_contains ''youtu.be'' ?u"
    by code_simp
  have h2: "youtube_loader demo_env ?u = Inl (Exception ''no transcript'')"
    by (simp add: demo_env_def)
  have h3: "yt_dlp demo_env ?u = Inr ?out"
    by (simp add: demo_env_def)
  have h4: "str_strip_ws ?out = ''Title'' @ CHR 0x0A # ''About it''"
    by code_simp
  then have h5: "str_strip_ws ?out \<noteq> []"
    by simp
  from video_fallback_document [of ?u demo_env "Exception ''no transcript''" ?out, OF disjI2 [OF h1] h2 h3 h5]
  have "fst (load_docs demo_env ?u) =
     Some [\<lparr>page_content = str_strip_ws ?out, metadata = [(''source'', ?u)]\<rparr>]"
    by simp
  with h1 h2 h3 h4 show ?thesis
    by simp
qed

text \<open>
  Claim C7. For a submitted input that is empty or only whitespace, or that the URL
  validator rejects, the run shows exactly one inline error message, \<open>load_docs\<close> is not
  called, the chain is not invoked and no summary is shown.
\<close>

theorem invalid_input_rejected:
  assumes "str_strip_ws generic_url = [] \<or> \<not> validators_url e generic_url"
  shows "(if str_strip_ws generic_url = []
          then on_generate e generic_url show_links = [St_error Please_enter_url]
          else on_generate e generic_url show_links = [St_error Invalid_url_format]) \<and>
     (\<forall>url. Call_load_docs url \<notin> set (on_generate e generic_url show_links)) \<and>
     (\<forall>docs. Call_chain docs \<notin> set (on_generate e generic_url show_links)) \<and>
     (\<forall>s. Tab_summary s \<notin> set (on_generate e generic_url show_links))"
  using assms by (auto simp: on_generate_def)

theorem invalid_input_rejected_witness:
  "str_strip_ws [CHR '' '', CHR 0x09] = [] \<and>
   on_generate demo_env [CHR '' '', CHR 0x09] True = [St_error Please_enter_url] \<and>
   \<not> validators_url demo_env ''not a url'' \<and>
   on_generate demo_env ''not a url'' True = [St_error Invalid_url_format]"
proof -
  have h1: "str_strip_ws [CHR '' '', CHR 0x09] = []"
    by (simp add: str_strip_ws_def isspace_def)
  have h2: "\<not> validators_url demo_env ''not a url''"
    by (simp add: demo_env_def)
  have n: "str_strip_ws ''not a url'' \<noteq> []"
    by code_simp
  from invalid_input_rejected [of "[CHR '' '', CHR 0x09]" demo_env True, OF disjI1 [OF h1]] h1
  have a: "on_generate demo_env [CHR '' '', CHR 0x09] True = [St_error Please_enter_url]"
    by presburger
  from invalid_input_rejected [of "''not a url''" demo_env True, OF disjI2 [OF h2]] n
  have b: "on_generate demo_env ''not a url'' True = [St_error Invalid_url_format]"
    by presburger
  from h1 a h2 b show ?thesis
    by blast
qed

text \<open>
  Claim C8. Whenever the statistics panel is shown, its word count is the length of
  \<open>output_summary.split()\<close> for the one summary shown in the summary panel, which is the
  number of whitespace-delimited tokens of that summary.
\<close>

theorem word_count_stat:
  assumes "Tab_stats word_count link_count \<in> set (on_generate e generic_url show_links)"
  shows "\<exists>output_summary.
     Tab_summary output_summary \<in> set (on_generate e generic_url show_links) \<and>
     (\<forall>s. Tab_summary s \<in> set (on_generate e generic_url show_links) \<longrightarrow> s = output_summary) \<and>
     word_count = length (str_split output_summary) \<and>
     word_count = spec_token_count output_summary"
proof -
  let ?og = "on_generate e generic_url show_links"
  let ?loaded = "snd (load_docs e generic_url)"
  have ld: "\<And>ev. ev \<in> set ?loaded \<Longrightarrow>
     (\<forall>s. ev \<noteq> Tab_summary s) \<and> (\<forall>w l. ev \<noteq> Tab_stats w l)"
    using load_docs_events [of _ e generic_url] by fastforce
  have valid: "str_strip_ws generic_url \<noteq> [] \<and> validators_url e generic_url"
  proof (rule ccontr)
    assume "\<not> (str_strip_ws generic_url \<noteq> [] \<and> validators_url e generic_url)"
    then have "str_strip_ws generic_url = [] \<or> \<not> validators_url e generic_url"
      by blast
    then have "?og = (if str_strip_ws generic_url = [] then [St_error Please_enter_url]
        else [St_error Invalid_url_format])"
      by (rule on_generate_invalid)
    with assms show False
      by (simp split: if_splits)
  qed
  define rest where "rest =
     (case fst (load_docs e generic_url) of
        None \<Rightarrow> [St_error No_content_found]
      | Some [] \<Rightarrow> [St_error No_content_found]
      | Some (d # ds) \<Rightarrow> summarize_and_show e (d # ds) show_links)"
  from valid have og: "?og = Call_load_docs generic_url # ?loaded @ rest"
    unfolding rest_def by (simp add: on_generate_valid)
  with assms ld have in_rest: "Tab_stats word_count link_count \<in> set rest"
    by auto
  then obtain docs where rest: "rest = summarize_and_show e docs show_links"
    unfolding rest_def by (auto split: option.splits list.splits)
  with in_rest obtain s where s: "chain_invoke e docs = Inr s" "word_count = length (str_split s)"
    using summarize_and_show_stats by blast
  have "\<And>s'. Tab_summary s' \<in> set ?og \<longleftrightarrow> s' = s"
    using og ld rest s(1) by (auto simp: summarize_and_show_summary)
  with s(2) show ?thesis
    by (auto simp: length_str_split)
qed

theorem word_count_stat_witness:
  "Tab_stats 3 1 \<in> set (on_generate demo_env ''https://a.org'' True) \<and>
   Tab_summary ''A  short summary '' \<in> set (on_generate demo_env ''https://a.org'' True) \<and>
   str_split ''A  short summary '' = [''A'', ''short'', ''summary'']"
proof -
  have og: "on_generate demo_env ''https://a.org'' True =
     [Call_load_docs ''https://a.org'', Call_url_loader ''https://a.org'',
      Call_chain [\<lparr>page_content = ''See https://facebook.com/x, and https://a.org/y.'', metadata = []\<rparr>],
      Tab_summary ''A  short summary '', Download_button ''A  short summary '',
      Links_header, Link_item ''https://a.org/y'', Links_footer, Tab_stats 3 1]"
    by code_simp
  then have h: "Tab_stats 3 1 \<in> set (on_generate demo_env ''https://a.org'' True)"
    by simp
  have sp: "str_split ''A  short summary '' = [''A'', ''short'', ''summary'']"
    by code_simp
  from word_count_stat [OF h] obtain s where
    "Tab_summary s \<in> set (on_generate demo_env ''https://a.org'' True)"
    by blast
  with og h sp show ?thesis
    by simp
qed

text \<open>
  Claim C10. With \<open>show_links\<close> false, a run that loads documents and obtains a summary shows
  no link, and its link count is the number of raw matches of \<open>https?://\S+\<close> in the joined
  document text: \<open>filter_links\<close> has not been applied to them.
\<close>

theorem link_count_unfiltered:
  assumes "str_strip_ws generic_url \<noteq> []" and "validators_url e generic_url"
    and "load_docs e generic_url = (Some docs, loaded)" and "docs \<noteq> []"
    and "chain_invoke e docs = Inr output_summary"
  shows "on_generate e generic_url False =
     Call_load_docs generic_url # loaded @
     [Call_chain docs, Tab_summary output_summary, Download_button output_summary,
      St_info_no_links,
      Tab_stats (length (str_split output_summary))
        (length (re_findall (str_join '' '' (map page_content docs))))]"
  using assms
  by (cases docs) (simp_all add: on_generate_def summarize_and_show_def Let_def)

theorem link_count_unfiltered_witness:
  "str_strip_ws ''https://a.org'' \<noteq> [] \<and>
   validators_url demo_env ''https://a.org'' \<and>
   load_docs demo_env ''https://a.org'' =
     (Some [\<lparr>page_content = ''See https://facebook.com/x, and https://a.org/y.'', metadata = []\<rparr>],
      [Call_url_loader ''https://a.org'']) \<and>
   chain_invoke demo_env
     [\<lparr>page_content = ''See https://facebook.com/x, and https://a.org/y.'', metadata = []\<rparr>] =
     Inr ''A  short summary '' \<and>
   re_findall ''See https://facebook.com/x, and https://a.org/y.'' =
     [''https://facebook.com/x,'', ''https://a.org/y.''] \<and>
   filter_links [''https://facebook.com/x,'', ''https://a.org/y.''] = [''https://a.org/y''] \<and>
   on_generate demo_env ''https://a.org'' False =
     [Call_load_docs ''https://a.org'', Call_url_loader ''https://a.org'',
      Call_chain [\<lparr>page_content = ''See https://facebook.com/x, and https://a.org/y.'', metadata = []\<rparr>],
      Tab_summary ''A  short summary '', Download_button ''A  short summary '',
      St_info_no_links, Tab_stats 3 2]"
proof -
  let ?u = "''https://a.org''"
  let ?docs = "[\<lparr>page_content = ''See https://facebook.com/x, and https://a.org/y.'', metadata = []\<rparr>]"
  have h1: "str_strip_ws ?u \<noteq> []"
    by code_simp
  have h2: "validators_url demo_env ?u"
    by (simp add: demo_env_def)
  have h3: "load_docs demo_env ?u = (Some ?docs, [Call_url_loader ?u])"
    by code_simp
  have h4: "?docs \<noteq> []"
    by simp
  have h5: "chain_invoke demo_env ?docs = Inr ''A  short summary ''"
    by (simp add: demo_env_def)
  have f: "re_findall ''See https://facebook.com/x, and https://a.org/y.'' =
     [''https://facebook.com/x,'', ''https://a.org/y.'']"
    by code_simp
  have g: "filter_links [''https://facebook.com/x,'', ''https://a.org/y.''] = [''https://a.org/y'']"
    by code_simp
  have w: "str_split ''A  short summary '' = [''A'', ''short'', ''summary'']"
    by code_simp
  have j: "str_join '' '' (map page_content ?docs) =
     ''See https://facebook.com/x, and https://a.org/y.''"
    by simp
  have "on_generate demo_env ?u False =
     Call_load_docs ?u # [Call_url_loader ?u] @
     [Call_chain ?docs, Tab_summary ''A  short summary '', Download_button ''A  short summary '',
      St_info_no_links,
      Tab_stats (length (str_split ''A  short summary ''))
        (length (re_findall (str_join '' '' (map page_content ?docs))))]"
    by (rule link_count_unfiltered [OF h1 h2 h3 h4 h5])
  then have "on_generate demo_env ?u False =
     [Call_load_docs ?u, Call_url_loader ?u, Call_chain ?docs,
      Tab_summary ''A  short summary '', Download_button ''A  short summary '',
      St_info_no_links, Tab_stats 3 2]"
    unfolding j f w by simp
  with h1 h2 h3 h5 f g show ?thesis
    by blast
qed

end
